theory Spec2Isabelle
  imports Main "HOL-Library.AList" "HOL-Library.Multiset" "HOL-Library.Product_Lexorder"
begin

section \<open>Data model\<close>

text \<open>
  A value found in a spreadsheet cell or in a field of a scraped event: Python's
  \<open>None\<close>, a \<open>str\<close>, or a number.  Strings are lists of 8-bit characters, read as
  the code points 0..255 (Latin-1), which covers the German and English month names
  of \<open>month_map\<close>; code points above 255 are outside this development.
\<close>

datatype cell = CNone | CStr string | CNum int

text \<open>
  An event is the dict with the five keys \<open>title\<close>, \<open>date\<close>, \<open>location\<close>, \<open>url\<close>,
  \<open>source\<close> that every scraper builds and that the loader builds from a row.
\<close>

record event =
  title :: cell
  date :: cell
  location :: cell
  url :: cell
  source :: cell

datatype py_error = ValueError | TypeError | IndexError

type_synonym key = "cell \<times> cell \<times> cell"

text \<open>
  \<open>existing_events\<close> is a Python dict: keys are unique and iteration follows insertion
  order.  It is an association list; \<open>AList.update\<close> replaces the value of a key in
  place and appends a key that is new, as assignment to a dict entry does.
\<close>

type_synonym store = "(key \<times> event) list"

definition sentinel :: cell where
  "sentinel = CStr ''See details''"

definition key_of :: "event \<Rightarrow> key" where
  "key_of ev = (title ev, url ev, source ev)"

section \<open>The merge loop of \<open>save_to_excel\<close>\<close>

text \<open>
  One iteration of \<open>for event in events\<close> (main.py, lines 52 to 68).  The state is the
  dict together with \<open>new_count\<close> and \<open>updated_count\<close>.  The stored dict object is mutated
  only inside a branch whose test succeeded, so an iteration that takes neither branch
  leaves the store as it was.

  A new key stores the incoming dict object itself, so enriching the stored record later
  also changes that element of \<open>events\<close>.  The loop reads such an element again only
  if the same object occurs twice in \<open>events\<close>; it is then compared with itself and
  nothing changes, and neither does anything change here, where the second occurrence
  still has its first value: a stored field that is still the sentinel was the sentinel
  in the event.  Records are therefore values.
\<close>

definition merge_event :: "event \<Rightarrow> store \<times> nat \<times> nat \<Rightarrow> store \<times> nat \<times> nat" where
  "merge_event ev st =
     (case st of (existing_events, new_count, updated_count) \<Rightarrow>
        (case map_of existing_events (key_of ev) of
           None \<Rightarrow> (AList.update (key_of ev) ev existing_events, new_count + 1, updated_count)
         | Some existing \<Rightarrow>
             (let upd_date = (date existing = sentinel \<and> date ev \<noteq> sentinel);
                  existing1 = (if upd_date then existing\<lparr>date := date ev\<rparr> else existing);
                  upd_loc = (location existing1 = sentinel \<and> location ev \<noteq> sentinel);
                  existing2 = (if upd_loc then existing1\<lparr>location := location ev\<rparr> else existing1)
              in (AList.update (key_of ev) existing2 existing_events,
                  new_count,
                  (if upd_date \<or> upd_loc then updated_count + 1 else updated_count)))))"

fun merge_loop :: "store \<times> nat \<times> nat \<Rightarrow> event list \<Rightarrow> store \<times> nat \<times> nat" where
  "merge_loop st [] = st"
| "merge_loop st (ev # evs) = merge_loop (merge_event ev st) evs"

definition reconcile :: "store \<Rightarrow> event list \<Rightarrow> store \<times> nat \<times> nat" where
  "reconcile persisted incoming = merge_loop (persisted, 0, 0) incoming"

text \<open>The persisted set: the values of the dict, without their order.\<close>

definition persisted_set :: "store \<Rightarrow> event set" where
  "persisted_set st = snd ` set st"

section \<open>Notions used in the proofs about the merge loop\<close>

text \<open>
  A store has absorbed an event when the event's key is present and no field of the
  stored record would still be filled from the event.
\<close>

definition absorbed :: "store \<Rightarrow> event \<Rightarrow> bool" where
  "absorbed s ev \<longleftrightarrow>
     (\<exists>x. map_of s (key_of ev) = Some x
        \<and> (date x = sentinel \<longrightarrow> date ev = sentinel)
        \<and> (location x = sentinel \<longrightarrow> location ev = sentinel))"

text \<open>
  What the two conditional assignments of the update branch make of the stored record.
\<close>

definition enrich :: "event \<Rightarrow> event \<Rightarrow> event" where
  "enrich existing ev =
     existing\<lparr>date := (if date existing = sentinel \<and> date ev \<noteq> sentinel then date ev else date existing),
              location := (if location existing = sentinel \<and> location ev \<noteq> sentinel
                           then location ev else location existing)\<rparr>"


text \<open>
  The merge step seen on the mapping from keys to records, forgetting the order of the
  dict and the counters.
\<close>

definition mstep :: "event \<Rightarrow> (key \<rightharpoonup> event) \<Rightarrow> (key \<rightharpoonup> event)" where
  "mstep ev m =
     (case m (key_of ev) of
        None \<Rightarrow> m(key_of ev \<mapsto> ev)
      | Some x \<Rightarrow> m(key_of ev \<mapsto> enrich x ev))"

text \<open>
  Two incoming records agree when, if they have the same key, they do not carry two
  different non-sentinel values for \<open>date\<close>, nor for \<open>location\<close>.
\<close>

definition agree :: "event \<Rightarrow> event \<Rightarrow> bool" where
  "agree e1 e2 \<longleftrightarrow>
     (key_of e1 = key_of e2 \<longrightarrow>
        (date e1 \<noteq> sentinel \<and> date e2 \<noteq> sentinel \<longrightarrow> date e1 = date e2)
      \<and> (location e1 \<noteq> sentinel \<and> location e2 \<noteq> sentinel \<longrightarrow> location e1 = location e2))"

text \<open>
  Two scraped records with the same key and different concrete dates and locations.
\<close>

definition conflict_a :: event where
  "conflict_a = \<lparr>title = CStr ''T'', date = CStr ''01.01.2026'', location = CStr ''Berlin'',
                  url = CStr ''u'', source = CStr ''X''\<rparr>"

definition conflict_b :: event where
  "conflict_b = \<lparr>title = CStr ''T'', date = CStr ''02.02.2026'', location = CStr ''Bonn'',
                  url = CStr ''u'', source = CStr ''X''\<rparr>"


text \<open>A scraped record whose date and location are still unknown.\<close>

definition pending :: event where
  "pending = \<lparr>title = CStr ''Kongress A'', date = sentinel, location = sentinel,
               url = CStr ''https://x/a'', source = CStr ''X''\<rparr>"


section \<open>Loading the persisted rows\<close>

text \<open>
  A row is the tuple of cell values that \<open>iter_rows(min_row=2, values_only=True)\<close>
  yields.  The loop over the rows runs inside \<open>try ... except Exception\<close>: reading
  \<open>row[0]\<close> of an empty tuple raises IndexError, unpacking a tuple that has not exactly
  five cells raises ValueError, and either one ends the loop with the entries stored so
  far still in the dict.  The result is the dict and the exception that ended the loop,
  if any.  \<open>load_row\<close> is the body of the loop.
\<close>

type_synonym row = "cell list"

definition load_row :: "store \<Rightarrow> row \<Rightarrow> py_error + store" where
  "load_row existing_events r =
     (case r of
        [] \<Rightarrow> Inl IndexError
      | c0 # _ \<Rightarrow>
          (if c0 \<noteq> CNone then
             (case r of
                [t, d, l, u, s] \<Rightarrow>
                  Inr (AList.update (t, u, s)
                         \<lparr>title = t, date = d, location = l, url = u, source = s\<rparr>
                         existing_events)
              | _ \<Rightarrow> Inl ValueError)
           else Inr existing_events))"

fun load_rows :: "store \<Rightarrow> row list \<Rightarrow> store \<times> py_error option" where
  "load_rows existing_events [] = (existing_events, None)"
| "load_rows existing_events (r # rs) =
     (case load_row existing_events r of
        Inl e \<Rightarrow> (existing_events, Some e)
      | Inr existing_events' \<Rightarrow> load_rows existing_events' rs)"

text \<open>
  The rows below the header when the file exists and the workbook can be read,
  \<open>None\<close> otherwise; in both failure cases the dict stays empty.
\<close>

definition load_existing :: "row list option \<Rightarrow> store" where
  "load_existing file = (case file of None \<Rightarrow> [] | Some rows \<Rightarrow> fst (load_rows [] rows))"

section \<open>The date normalizer \<open>parse_date\<close>\<close>

subsection \<open>Character classes of Python's \<open>re\<close> on the code points 0..255\<close>

definition is_digit :: "char \<Rightarrow> bool" where
  "is_digit c \<longleftrightarrow> 48 \<le> (of_char c :: nat) \<and> (of_char c :: nat) \<le> 57"

definition is_space :: "char \<Rightarrow> bool" where
  "is_space c \<longleftrightarrow>
     (let n = (of_char c :: nat)
      in (9 \<le> n \<and> n \<le> 13) \<or> (28 \<le> n \<and> n \<le> 32) \<or> n = 133 \<or> n = 160)"

definition is_word :: "char \<Rightarrow> bool" where
  "is_word c \<longleftrightarrow>
     (let n = (of_char c :: nat)
      in (48 \<le> n \<and> n \<le> 57) \<or> (65 \<le> n \<and> n \<le> 90) \<or> n = 95 \<or> (97 \<le> n \<and> n \<le> 122)
         \<or> n = 170 \<or> n = 178 \<or> n = 179 \<or> n = 181 \<or> n = 185 \<or> n = 186
         \<or> (188 \<le> n \<and> n \<le> 190) \<or> (192 \<le> n \<and> n \<le> 214)
         \<or> (216 \<le> n \<and> n \<le> 246) \<or> (248 \<le> n \<and> n \<le> 255))"

text \<open>\<open>str.lower\<close>, one character at a time.\<close>

definition lower_char :: "char \<Rightarrow> char" where
  "lower_char c =
     (let n = (of_char c :: nat)
      in if (65 \<le> n \<and> n \<le> 90) \<or> (192 \<le> n \<and> n \<le> 214) \<or> (216 \<le> n \<and> n \<le> 222)
         then char_of (n + 32) else c)"

definition lower :: "string \<Rightarrow> string" where
  "lower s = map lower_char s"

subsection \<open>Backtracking matching\<close>

text \<open>
  \<open>re.match\<close> tries the alternatives of every quantifier in order of preference and
  backtracks into the previous one when the rest of the pattern fails.  Each piece of a
  pattern is a function from the remaining input to the list of its ways to match, most
  preferred first, each with the text it consumed and the input left; a pattern is the
  sequence of its pieces, and the match is the first entry of the resulting list.

  \<open>greedy p lo hi\<close> is a greedy repetition of a character class, between \<open>lo\<close> and
  \<open>hi\<close> times: the longest run first, then one character less at a time.  For \<open>*\<close> and
  \<open>+\<close> the upper bound is the length of the input.
\<close>

definition greedy :: "(char \<Rightarrow> bool) \<Rightarrow> nat \<Rightarrow> nat \<Rightarrow> string \<Rightarrow> (string \<times> string) list" where
  "greedy p lo hi s =
     map (\<lambda>n. (take n s, drop n s)) (rev [lo ..< Suc (min hi (length (takeWhile p s)))])"

definition lit :: "char \<Rightarrow> string \<Rightarrow> string list" where
  "lit c s = (case s of [] \<Rightarrow> [] | x # r \<Rightarrow> if x = c then [r] else [])"

definition opt_lit :: "char \<Rightarrow> string \<Rightarrow> string list" where
  "opt_lit c s = lit c s @ [s]"

definition opt_group :: "(string \<Rightarrow> (string \<times> string) list) \<Rightarrow> string \<Rightarrow> (string option \<times> string) list" where
  "opt_group g s = map (\<lambda>(t, r). (Some t, r)) (g s) @ [(None, s)]"

definition first_match :: "'a list \<Rightarrow> 'a option" where
  "first_match ms = (case ms of [] \<Rightarrow> None | m # _ \<Rightarrow> Some m)"

text \<open>\<^verbatim>\<open>(\d{1,2})\.(\d{1,2})\.(\d{4})\<close>, with its three groups.\<close>

definition numeric_matches :: "string \<Rightarrow> (string \<times> string \<times> string) list" where
  "numeric_matches s =
     [(g1, g2, g3).
        (g1, r1) \<leftarrow> greedy is_digit 1 2 s,
        r2 \<leftarrow> lit CHR ''.'' r1,
        (g2, r3) \<leftarrow> greedy is_digit 1 2 r2,
        r4 \<leftarrow> lit CHR ''.'' r3,
        (g3, r5) \<leftarrow> greedy is_digit 4 4 r4]"

text \<open>
  \<^verbatim>\<open>(\d{1,2})\.?/?\.?\s*(\d{1,2})?\.?\s*(\w+)\s+(\d{4})\<close>, with its four groups.  The
  pattern is written as the sequence of two parts, \<^verbatim>\<open>(\d{1,2})\.?/?\.?\s*(\d{1,2})?\.?\s*\<close>
  for the days and \<^verbatim>\<open>(\w+)\s+(\d{4})\<close> for the month and the year; the second part is
  tried on what every way of matching the first part leaves, in order.
\<close>

definition range_days :: "string \<Rightarrow> (string \<times> string option \<times> string) list" where
  "range_days s =
     [(g1, g2, r8).
        (g1, r1) \<leftarrow> greedy is_digit 1 2 s,
        r2 \<leftarrow> opt_lit CHR ''.'' r1,
        r3 \<leftarrow> opt_lit CHR ''/'' r2,
        r4 \<leftarrow> opt_lit CHR ''.'' r3,
        (w1, r5) \<leftarrow> greedy is_space 0 (length r4) r4,
        (g2, r6) \<leftarrow> opt_group (greedy is_digit 1 2) r5,
        r7 \<leftarrow> opt_lit CHR ''.'' r6,
        (w2, r8) \<leftarrow> greedy is_space 0 (length r7) r7]"

definition range_month_year :: "string \<Rightarrow> (string \<times> string \<times> string) list" where
  "range_month_year r8 =
     [(g3, g4, r11).
        (g3, r9) \<leftarrow> greedy is_word 1 (length r8) r8,
        (w3, r10) \<leftarrow> greedy is_space 1 (length r9) r9,
        (g4, r11) \<leftarrow> greedy is_digit 4 4 r10]"

definition range_matches :: "string \<Rightarrow> (string \<times> string option \<times> string \<times> string) list" where
  "range_matches s =
     [(g1, g2, g3, g4).
        (g1, g2, r8) \<leftarrow> range_days s,
        (g3, g4, r11) \<leftarrow> range_month_year r8]"

subsection \<open>\<open>int\<close> and \<open>datetime\<close>\<close>

text \<open>
  \<open>int\<close> on a string of decimal digits.  The only arguments it gets here are groups
  matched by \<^verbatim>\<open>\d\<close>; on anything else the model raises ValueError.
\<close>

definition py_int :: "string \<Rightarrow> py_error + int" where
  "py_int s =
     (if s \<noteq> [] \<and> list_all is_digit s
      then Inr (foldl (\<lambda>a c. 10 * a + (int (of_char c) - 48)) 0 s)
      else Inl ValueError)"

text \<open>
  A \<open>datetime\<close> is year, month, day, hour, minute, second, microsecond; the order is
  lexicographic.  The constructor raises ValueError unless year, month and day name a
  day of the proleptic Gregorian calendar with a year from 1 to 9999.
\<close>

type_synonym datetime = "int \<times> int \<times> int \<times> int \<times> int \<times> int \<times> int"

definition is_leap :: "int \<Rightarrow> bool" where
  "is_leap y \<longleftrightarrow> y mod 4 = 0 \<and> (y mod 100 \<noteq> 0 \<or> y mod 400 = 0)"

definition days_in_month :: "int \<Rightarrow> int \<Rightarrow> int" where
  "days_in_month y m =
     (if m = 2 then (if is_leap y then 29 else 28)
      else if m = 4 \<or> m = 6 \<or> m = 9 \<or> m = 11 then 30 else 31)"

definition valid_date :: "int \<Rightarrow> int \<Rightarrow> int \<Rightarrow> bool" where
  "valid_date y m d \<longleftrightarrow>
     1 \<le> y \<and> y \<le> 9999 \<and> 1 \<le> m \<and> m \<le> 12 \<and> 1 \<le> d \<and> d \<le> days_in_month y m"

definition py_datetime :: "int \<Rightarrow> int \<Rightarrow> int \<Rightarrow> py_error + datetime" where
  "py_datetime y m d = (if valid_date y m d then Inr (y, m, d, 0, 0, 0, 0) else Inl ValueError)"

definition datetime_max :: datetime where
  "datetime_max = (9999, 12, 31, 23, 59, 59, 999999)"

subsection \<open>\<open>parse_date\<close>\<close>

definition month_map :: "(string \<times> int) list" where
  "month_map =
     [(''januar'', 1), (''january'', 1), (''jan'', 1),
      (''februar'', 2), (''february'', 2), (''feb'', 2),
      ([CHR ''m'', CHR 0xE4, CHR ''r'', CHR ''z''], 3), (''march'', 3), (''mar'', 3),
      (''april'', 4), (''apr'', 4),
      (''mai'', 5), (''may'', 5),
      (''juni'', 6), (''june'', 6), (''jun'', 6),
      (''juli'', 7), (''july'', 7), (''jul'', 7),
      (''august'', 8), (''aug'', 8),
      (''september'', 9), (''sep'', 9), (''sept'', 9),
      (''oktober'', 10), (''october'', 10), (''oct'', 10),
      (''november'', 11), (''nov'', 11),
      (''dezember'', 12), (''december'', 12), (''dec'', 12)]"

text \<open>
  The first rule (main.py, lines 82 to 87).  \<open>Inr (Some d)\<close> is \<open>return d\<close>, \<open>Inr None\<close>
  is falling through to the next rule (no match, or a ValueError that the \<open>except\<close>
  clause swallowed), \<open>Inl e\<close> an exception that leaves \<open>parse_date\<close>.
\<close>

definition numeric_rule :: "string \<Rightarrow> py_error + datetime option" where
  "numeric_rule s =
     (case first_match (numeric_matches s) of
        None \<Rightarrow> Inr None
      | Some (g1, g2, g3) \<Rightarrow>
          (case (case py_int g3 of Inl e \<Rightarrow> Inl e | Inr y \<Rightarrow>
                 (case py_int g2 of Inl e \<Rightarrow> Inl e | Inr m \<Rightarrow>
                  (case py_int g1 of Inl e \<Rightarrow> Inl e | Inr d \<Rightarrow> py_datetime y m d))) of
             Inr dt \<Rightarrow> Inr (Some dt)
           | Inl e \<Rightarrow> if e = ValueError then Inr None else Inl e))"

text \<open>
  The second rule (main.py, lines 90 to 113).  Only the constructor call is inside
  \<open>try\<close>; the two calls of \<open>int\<close> are not.
\<close>

definition range_rule :: "string \<Rightarrow> py_error + datetime option" where
  "range_rule s =
     (case first_match (range_matches s) of
        None \<Rightarrow> Inr None
      | Some (g1, g2, g3, g4) \<Rightarrow>
          (case py_int g1 of Inl e \<Rightarrow> Inl e | Inr day \<Rightarrow>
           (let month_name = lower g3 in
            (case py_int g4 of Inl e \<Rightarrow> Inl e | Inr year \<Rightarrow>
             (case map_of month_map month_name of
                None \<Rightarrow> Inr None
              | Some month \<Rightarrow>
                  (case py_datetime year month day of
                     Inr dt \<Rightarrow> Inr (Some dt)
                   | Inl e \<Rightarrow> if e = ValueError then Inr None else Inl e))))))"

text \<open>
  \<open>parse_date\<close> on the value of the \<open>date\<close> field.  \<open>None\<close>, the empty string and the
  number zero are falsy; \<open>re.match\<close> on a number raises TypeError.
\<close>

definition parse_date :: "cell \<Rightarrow> py_error + datetime option" where
  "parse_date date_str =
     (case date_str of
        CNone \<Rightarrow> Inr None
      | CNum n \<Rightarrow> if n = 0 then Inr None else Inl TypeError
      | CStr s \<Rightarrow>
          if s = [] \<or> s = ''See details'' then Inr None
          else (case numeric_rule s of
                  Inl e \<Rightarrow> Inl e
                | Inr (Some dt) \<Rightarrow> Inr (Some dt)
                | Inr None \<Rightarrow> range_rule s))"

section \<open>The ordering of the events\<close>

definition sort_key_event :: "event \<Rightarrow> py_error + (nat \<times> datetime)" where
  "sort_key_event ev =
     (case parse_date (date ev) of
        Inl e \<Rightarrow> Inl e
      | Inr None \<Rightarrow> Inr (1, datetime_max)
      | Inr (Some parsed) \<Rightarrow> Inr (0, parsed))"

text \<open>
  \<open>sorted(values, key=sort_key)\<close> first computes the key of every element, in order, and
  the first exception leaves the call; then it sorts the elements by their keys with a
  stable sort.
\<close>

fun keys_of :: "event list \<Rightarrow> py_error + (nat \<times> datetime) list" where
  "keys_of [] = Inr []"
| "keys_of (ev # evs) =
     (case sort_key_event ev of
        Inl e \<Rightarrow> Inl e
      | Inr k \<Rightarrow> (case keys_of evs of Inl e \<Rightarrow> Inl e | Inr ks \<Rightarrow> Inr (k # ks)))"

definition sorted_events :: "event list \<Rightarrow> py_error + event list" where
  "sorted_events evs =
     (case keys_of evs of
        Inl e \<Rightarrow> Inl e
      | Inr ks \<Rightarrow> Inr (map snd (sort_key fst (zip ks evs))))"

text \<open>
  \<open>save_to_excel\<close> up to the rows it writes: load, merge, sort.  The result is the
  list of events written below the header, with the two counters that are logged.
\<close>

definition save_to_excel :: "event list \<Rightarrow> row list option \<Rightarrow> py_error + (event list \<times> nat \<times> nat)" where
  "save_to_excel events file =
     (case reconcile (load_existing file) events of
        (existing_events, new_count, updated_count) \<Rightarrow>
          (case sorted_events (map snd existing_events) of
             Inl e \<Rightarrow> Inl e
           | Inr evs \<Rightarrow> Inr (evs, new_count, updated_count)))"

text \<open>A row of five cells whose title cell holds the empty string.\<close>

definition untitled_row :: row where
  "untitled_row = [CStr '''', CStr ''21. April 2026'', CStr ''Berlin'', CStr ''https://x/a'', CStr ''X'']"

section \<open>Notions used in the proofs about the date normalizer\<close>

text \<open>The characters that occur in the keys of \<open>month_map\<close>: a to z and a-umlaut.\<close>

definition month_letter :: "char \<Rightarrow> bool" where
  "month_letter c \<longleftrightarrow>
     (97 \<le> (of_char c :: nat) \<and> (of_char c :: nat) \<le> 122) \<or> (of_char c :: nat) = 228"

section \<open>Notions used in the proofs about the ordering\<close>

text \<open>The key of an event whose key can be computed; the key of an unknown date otherwise.\<close>

definition key_total :: "event \<Rightarrow> nat \<times> datetime" where
  "key_total ev = (case sort_key_event ev of Inr k \<Rightarrow> k | Inl e \<Rightarrow> (1, datetime_max))"

text \<open>The four records of the ordering example of the specification, in input order.\<close>

definition dated :: "string \<Rightarrow> string \<Rightarrow> event" where
  "dated t d = \<lparr>title = CStr t, date = CStr d, location = sentinel, url = CStr ''u'', source = CStr ''X''\<rparr>"

definition ordering_example :: "event list" where
  "ordering_example =
     [dated ''a'' ''10.03.2026'', dated ''b'' ''See details'',
      dated ''c'' ''01.01.2026'', dated ''d'' ''See details'']"

section \<open>Properties of the merge loop\<close>

lemma merge_event_absorbs: "absorbed (fst (merge_event ev (s, n, u))) ev"
  by (auto simp: merge_event_def absorbed_def AList.update_conv' Let_def split: option.splits)

lemma merge_event_keeps_absorbed:
  assumes "absorbed s ev'"
  shows "absorbed (fst (merge_event ev (s, n, u))) ev'"
  using assms
  by (auto simp: merge_event_def absorbed_def AList.update_conv' Let_def split: option.splits)

lemma merge_event_absorbed_id:
  assumes "absorbed s ev"
  shows "merge_event ev (s, n, u) = (s, n, u)"
  using assms
  by (auto simp: merge_event_def absorbed_def Let_def AList.update_triv)

lemma merge_loop_keeps_absorbed:
  "absorbed s ev' \<Longrightarrow> absorbed (fst (merge_loop (s, n, u) evs)) ev'"
proof (induction evs arbitrary: s n u)
  case Nil
  then show ?case by simp
next
  case (Cons ev evs)
  obtain s1 n1 u1 where st: "merge_event ev (s, n, u) = (s1, n1, u1)"
    by (cases "merge_event ev (s, n, u)") auto
  have "absorbed s1 ev'"
    using merge_event_keeps_absorbed [OF Cons.prems, of ev n u] st by simp
  from Cons.IH [OF this] show ?case by (simp add: st)
qed

lemma merge_loop_absorbs_all:
  "ev' \<in> set evs \<Longrightarrow> absorbed (fst (merge_loop (s, n, u) evs)) ev'"
proof (induction evs arbitrary: s n u)
  case Nil
  then show ?case by simp
next
  case (Cons ev evs)
  obtain s1 n1 u1 where st: "merge_event ev (s, n, u) = (s1, n1, u1)"
    by (cases "merge_event ev (s, n, u)") auto
  show ?case
  proof (cases "ev' \<in> set evs")
    case True
    from Cons.IH [OF this] show ?thesis by (simp add: st)
  next
    case False
    with Cons.prems have "ev' = ev" by simp
    then have "absorbed s1 ev'"
      using merge_event_absorbs [of ev s n u] st by simp
    from merge_loop_keeps_absorbed [OF this] show ?thesis by (simp add: st)
  qed
qed

lemma merge_loop_absorbed_id:
  "(\<forall>ev \<in> set evs. absorbed s ev) \<Longrightarrow> merge_loop (s, n, u) evs = (s, n, u)"
  by (induction evs) (simp_all add: merge_event_absorbed_id)

text \<open>
  C3. Reconciliation is idempotent: running the merge a second time with the same batch
  against the output of the first run returns that output unchanged (the same dict, in
  the same order) and reports \<open>new_count = 0\<close> and \<open>updated_count = 0\<close>.
\<close>

theorem reconcile_idempotent:
  "reconcile (fst (reconcile P I)) I = (fst (reconcile P I), 0, 0)"
  unfolding reconcile_def
  by (rule merge_loop_absorbed_id) (simp add: merge_loop_absorbs_all)

lemma key_of_enrich [simp]: "key_of (enrich x ev) = key_of x"
  by (simp add: enrich_def key_of_def)

lemma merge_event_None:
  "map_of s (key_of ev) = None \<Longrightarrow>
     merge_event ev (s, n, u) = (AList.update (key_of ev) ev s, n + 1, u)"
  by (simp add: merge_event_def)

lemma merge_event_Some:
  "map_of s (key_of ev) = Some x \<Longrightarrow>
     fst (merge_event ev (s, n, u)) = AList.update (key_of ev) (enrich x ev) s
     \<and> fst (snd (merge_event ev (s, n, u))) = n"
  by (simp add: merge_event_def Let_def enrich_def)

lemma map_of_eq_None_keys: "map_of s k = None \<longleftrightarrow> k \<notin> fst ` set s"
  by (simp add: map_of_eq_None_iff)

lemma merge_event_keys:
  "map fst (fst (merge_event ev (s, n, u))) =
     (if key_of ev \<in> fst ` set s then map fst s else map fst s @ [key_of ev])"
proof (cases "map_of s (key_of ev)")
  case None
  then show ?thesis
    by (simp add: merge_event_None AList.update_keys map_of_eq_None_keys)
next
  case (Some x)
  then have "key_of ev \<in> fst ` set s"
    by (metis map_of_eq_None_keys option.distinct(1))
  with Some show ?thesis
    by (simp add: merge_event_Some AList.update_keys)
qed

lemma merge_event_new_count:
  "fst (snd (merge_event ev (s, n, u))) = (if key_of ev \<in> fst ` set s then n else n + 1)"
proof (cases "map_of s (key_of ev)")
  case None
  then show ?thesis
    by (simp add: merge_event_None map_of_eq_None_keys)
next
  case (Some x)
  then have "key_of ev \<in> fst ` set s"
    by (metis map_of_eq_None_keys option.distinct(1))
  with Some show ?thesis
    by (simp add: merge_event_Some)
qed

lemma set_update_subset: "set (AList.update k v al) \<subseteq> insert (k, v) (set al)"
  by (induction al) auto

lemma merge_event_keyed:
  assumes "\<forall>(k, v) \<in> set s. k = key_of v"
  shows "\<forall>(k, v) \<in> set (fst (merge_event ev (s, n, u))). k = key_of v"
proof (cases "map_of s (key_of ev)")
  case None
  then show ?thesis
    using assms set_update_subset [of "key_of ev" ev s]
    by (auto simp: merge_event_None)
next
  case (Some x)
  then have "(key_of ev, x) \<in> set s" by (rule map_of_SomeD)
  with assms have "key_of ev = key_of x" by auto
  then show ?thesis
    using assms Some set_update_subset [of "key_of ev" "enrich x ev" s]
    by (auto simp: merge_event_Some)
qed

lemma merge_loop_size:
  assumes "merge_loop (s, n, u) evs = (s', n', u')"
  shows "\<exists>new_keys. map fst s' = map fst s @ new_keys \<and> n' = n + length new_keys"
  using assms
proof (induction evs arbitrary: s n u)
  case Nil
  then show ?case by simp
next
  case (Cons ev evs)
  obtain s1 n1 u1 where st: "merge_event ev (s, n, u) = (s1, n1, u1)"
    by (cases "merge_event ev (s, n, u)") auto
  from Cons.prems st have "merge_loop (s1, n1, u1) evs = (s', n', u')" by simp
  from Cons.IH [OF this] obtain ks where
    ks: "map fst s' = map fst s1 @ ks" "n' = n1 + length ks" by blast
  have k1: "map fst s1 = (if key_of ev \<in> fst ` set s then map fst s else map fst s @ [key_of ev])"
    using merge_event_keys [of ev s n u] st by simp
  have c1: "n1 = (if key_of ev \<in> fst ` set s then n else n + 1)"
    using merge_event_new_count [of ev s n u] st by simp
  show ?case
  proof (cases "key_of ev \<in> fst ` set s")
    case True
    with ks k1 c1 show ?thesis by simp
  next
    case False
    with ks k1 c1 have "map fst s' = map fst s @ (key_of ev # ks) \<and> n' = n + length (key_of ev # ks)"
      by simp
    then show ?thesis by blast
  qed
qed

lemma merge_loop_distinct:
  "distinct (map fst s) \<Longrightarrow> distinct (map fst (fst (merge_loop (s, n, u) evs)))"
proof (induction evs arbitrary: s n u)
  case Nil
  then show ?case by simp
next
  case (Cons ev evs)
  obtain s1 n1 u1 where st: "merge_event ev (s, n, u) = (s1, n1, u1)"
    by (cases "merge_event ev (s, n, u)") auto
  have "distinct (map fst s1)"
    using merge_event_keys [of ev s n u] st Cons.prems by (auto split: if_splits)
  from Cons.IH [OF this] show ?case by (simp add: st)
qed

lemma merge_loop_keyed:
  "\<forall>(k, v) \<in> set s. k = key_of v \<Longrightarrow>
     \<forall>(k, v) \<in> set (fst (merge_loop (s, n, u) evs)). k = key_of v"
proof (induction evs arbitrary: s n u)
  case Nil
  then show ?case by simp
next
  case (Cons ev evs)
  obtain s1 n1 u1 where st: "merge_event ev (s, n, u) = (s1, n1, u1)"
    by (cases "merge_event ev (s, n, u)") auto
  have "\<forall>(k, v) \<in> set s1. k = key_of v"
    using merge_event_keyed [OF Cons.prems, of ev n u] st by simp
  from Cons.IH [OF this] show ?case by (simp add: st)
qed

lemma keyed_map: "\<forall>(k, v) \<in> set s. k = key_of v \<Longrightarrow> map (key_of \<circ> snd) s = map fst s"
  by (induction s) auto

text \<open>
  C9. Size invariant of the merge: when the keys of the persisted mapping are unique
  (and each is the key of its record), the merged result has as many records as the
  persisted mapping plus \<open>new_count\<close>, every key of the persisted mapping is still
  present, and no two records of the result have the same \<open>(title, url, source)\<close>.
\<close>

theorem reconcile_size:
  assumes uniq: "distinct (map fst P)"
    and keyed: "\<forall>(k, v) \<in> set P. k = key_of v"
    and run: "reconcile P I = (S', new_count, updated_count)"
  shows "length S' = length P + new_count
       \<and> fst ` set P \<subseteq> fst ` set S'
       \<and> distinct (map fst S')
       \<and> distinct (map (key_of \<circ> snd) S')"
proof -
  from run have ml: "merge_loop (P, 0, 0) I = (S', new_count, updated_count)"
    by (simp add: reconcile_def)
  from merge_loop_size [OF ml] obtain ks where
    ks: "map fst S' = map fst P @ ks" "new_count = 0 + length ks" by blast
  have "length (map fst S') = length (map fst P @ ks)"
    by (simp only: ks(1))
  then have len: "length S' = length P + new_count"
    using ks(2) by simp
  have "set (map fst S') = set (map fst P @ ks)"
    by (simp only: ks(1))
  then have sub: "fst ` set P \<subseteq> fst ` set S'"
    by auto
  have d: "distinct (map fst S')"
    using merge_loop_distinct [OF uniq, of 0 0 I] ml by simp
  have "\<forall>(k, v) \<in> set S'. k = key_of v"
    using merge_loop_keyed [OF keyed, of 0 0 I] ml by simp
  then have "map (key_of \<circ> snd) S' = map fst S'" by (rule keyed_map)
  with d have "distinct (map (key_of \<circ> snd) S')" by (simp only:)
  with len sub d show ?thesis by blast
qed

theorem reconcile_size_witness:
  "distinct (map fst [(key_of conflict_a, conflict_a)])
   \<and> length (fst (reconcile [(key_of conflict_a, conflict_a)] [conflict_b, pending])) = 2
   \<and> fst (snd (reconcile [(key_of conflict_a, conflict_a)] [conflict_b, pending])) = 1"
proof -
  have run: "reconcile [(key_of conflict_a, conflict_a)] [conflict_b, pending]
      = ([(key_of conflict_a, conflict_a), (key_of pending, pending)], 1, 0)"
    by (simp add: reconcile_def merge_event_def conflict_a_def conflict_b_def pending_def
        key_of_def sentinel_def)
  show ?thesis
    using reconcile_size [of "[(key_of conflict_a, conflict_a)]" "[conflict_b, pending]"
        "[(key_of conflict_a, conflict_a), (key_of pending, pending)]" 1 0] run
    by simp
qed

lemma merge_event_monotone:
  assumes "map_of s k = Some x"
  shows "\<exists>x'. map_of (fst (merge_event ev (s, n, u))) k = Some x'
      \<and> (date x \<noteq> sentinel \<longrightarrow> date x' = date x)
      \<and> (location x \<noteq> sentinel \<longrightarrow> location x' = location x)"
proof (cases "map_of s (key_of ev)")
  case None
  with assms have "key_of ev \<noteq> k" by auto
  with assms None show ?thesis
    by (simp add: merge_event_None AList.update_conv')
next
  case (Some y)
  show ?thesis
  proof (cases "key_of ev = k")
    case True
    with assms Some have "y = x" by simp
    with Some True show ?thesis
      by (simp add: merge_event_Some AList.update_conv' enrich_def)
  next
    case False
    with assms Some show ?thesis
      by (simp add: merge_event_Some AList.update_conv')
  qed
qed

text \<open>
  C4. Monotonic enrichment: for \<open>date\<close> and \<open>location\<close> independently, once the stored
  value of a record is not the sentinel, no sequence of later merge steps changes that
  field; the record stays in the store, so the field never reverts to the sentinel and
  a differing incoming value is ignored.
\<close>

theorem merge_monotonic_enrichment:
  assumes "map_of s k = Some x"
  shows "\<exists>x'. map_of (fst (merge_loop (s, n, u) evs)) k = Some x'
      \<and> (date x \<noteq> sentinel \<longrightarrow> date x' = date x)
      \<and> (location x \<noteq> sentinel \<longrightarrow> location x' = location x)"
  using assms
proof (induction evs arbitrary: s n u x)
  case Nil
  then show ?case by simp
next
  case (Cons ev evs)
  obtain s1 n1 u1 where st: "merge_event ev (s, n, u) = (s1, n1, u1)"
    by (cases "merge_event ev (s, n, u)") auto
  from merge_event_monotone [OF Cons.prems, of ev n u] st obtain x1 where
    x1: "map_of s1 k = Some x1"
      "date x \<noteq> sentinel \<longrightarrow> date x1 = date x"
      "location x \<noteq> sentinel \<longrightarrow> location x1 = location x"
    by auto
  from Cons.IH [OF x1(1), of n1 u1] obtain x' where
    x': "map_of (fst (merge_loop (s1, n1, u1) evs)) k = Some x'"
      "date x1 \<noteq> sentinel \<longrightarrow> date x' = date x1"
      "location x1 \<noteq> sentinel \<longrightarrow> location x' = location x1"
    by auto
  from x1 x' have "map_of (fst (merge_loop (s, n, u) (ev # evs))) k = Some x'
      \<and> (date x \<noteq> sentinel \<longrightarrow> date x' = date x)
      \<and> (location x \<noteq> sentinel \<longrightarrow> location x' = location x)"
    by (auto simp: st)
  then show ?case by blast
qed

theorem merge_monotonic_enrichment_witness:
  "map_of [(key_of conflict_a, conflict_a)] (key_of conflict_a) = Some conflict_a
   \<and> date conflict_a \<noteq> sentinel \<and> location conflict_a \<noteq> sentinel
   \<and> (\<exists>x'. map_of (fst (merge_loop ([(key_of conflict_a, conflict_a)], 0, 0) [conflict_b, pending]))
              (key_of conflict_a) = Some x'
         \<and> date x' = date conflict_a \<and> location x' = location conflict_a)"
proof -
  have h: "map_of [(key_of conflict_a, conflict_a)] (key_of conflict_a) = Some conflict_a"
    by simp
  have ns: "date conflict_a \<noteq> sentinel \<and> location conflict_a \<noteq> sentinel"
    by (simp add: conflict_a_def sentinel_def)
  show ?thesis
    using h ns merge_monotonic_enrichment [OF h, of 0 0 "[conflict_b, pending]"]
    by auto
qed

subsection \<open>Order of the incoming records\<close>

lemma map_of_merge_event:
  "map_of (fst (merge_event ev (s, n, u))) = mstep ev (map_of s)"
proof (cases "map_of s (key_of ev)")
  case None
  then show ?thesis by (simp add: merge_event_None mstep_def AList.update_conv')
next
  case (Some x)
  then show ?thesis by (simp add: merge_event_Some mstep_def AList.update_conv')
qed

lemma map_of_merge_loop:
  "map_of (fst (merge_loop (s, n, u) evs)) = fold mstep evs (map_of s)"
proof (induction evs arbitrary: s n u)
  case Nil
  then show ?case by simp
next
  case (Cons ev evs)
  obtain s1 n1 u1 where st: "merge_event ev (s, n, u) = (s1, n1, u1)"
    by (cases "merge_event ev (s, n, u)") auto
  have "map_of s1 = mstep ev (map_of s)"
    using map_of_merge_event [of ev s n u] st by simp
  with Cons.IH [of s1 n1 u1] show ?case by (simp add: st)
qed

lemma enrich_sym:
  assumes "key_of e1 = key_of e2" "agree e1 e2"
  shows "enrich e1 e2 = enrich e2 e1"
  using assms
  by (cases e1; cases e2) (auto simp: enrich_def agree_def key_of_def)

lemma enrich_enrich_comm:
  assumes "key_of e1 = key_of e2" "agree e1 e2"
  shows "enrich (enrich x e1) e2 = enrich (enrich x e2) e1"
  using assms
  by (cases x) (auto simp: enrich_def agree_def)

lemma mstep_commute:
  assumes "agree e1 e2"
  shows "mstep e1 (mstep e2 m) = mstep e2 (mstep e1 m)"
proof (cases "key_of e1 = key_of e2")
  case False
  then have ne: "key_of e2 \<noteq> key_of e1" by simp
  show ?thesis
    using False ne by (auto simp: mstep_def fun_upd_twist split: option.splits)
next
  case True
  show ?thesis
  proof (cases "m (key_of e1)")
    case None
    with True show ?thesis
      using enrich_sym [OF True assms] by (simp add: mstep_def)
  next
    case (Some x)
    with True show ?thesis
      using enrich_enrich_comm [OF True assms, of x] by (simp add: mstep_def)
  qed
qed

lemma fold_mstep_perm:
  assumes perm: "mset I' = mset I"
    and ag: "\<forall>e1 \<in> set I. \<forall>e2 \<in> set I. agree e1 e2"
  shows "fold mstep I' = fold mstep I"
proof -
  have "fold mstep I = fold mstep I'"
  proof (rule fold_multiset_equiv)
    fix x y assume "x \<in> set I" "y \<in> set I"
    with ag have xy: "agree x y" by blast
    show "mstep x \<circ> mstep y = mstep y \<circ> mstep x"
    proof (rule ext)
      fix m show "(mstep x \<circ> mstep y) m = (mstep y \<circ> mstep x) m"
        using mstep_commute [OF xy, of m] by simp
    qed
  next
    show "mset I = mset I'" using perm by simp
  qed
  then show ?thesis by simp
qed

text \<open>
  C1, as amended. Reconciling with any permutation of the incoming sequence yields the
  same final mapping and the same final persisted set, provided that incoming records
  sharing an identity key never carry two different non-sentinel values for the same
  field.
\<close>

theorem reconcile_commutative_if_agree:
  assumes perm: "mset I' = mset I"
    and ag: "\<forall>e1 \<in> set I. \<forall>e2 \<in> set I. agree e1 e2"
    and uniq: "distinct (map fst P)"
  shows "map_of (fst (reconcile P I')) = map_of (fst (reconcile P I))
       \<and> persisted_set (fst (reconcile P I')) = persisted_set (fst (reconcile P I))"
proof -
  have m: "map_of (fst (reconcile P I')) = map_of (fst (reconcile P I))"
    using fold_mstep_perm [OF perm ag] by (simp add: reconcile_def map_of_merge_loop)
  have "ran (map_of (fst (reconcile P I'))) = persisted_set (fst (reconcile P I'))"
    unfolding persisted_set_def reconcile_def
    by (rule ran_distinct) (rule merge_loop_distinct [OF uniq])
  moreover have "ran (map_of (fst (reconcile P I))) = persisted_set (fst (reconcile P I))"
    unfolding persisted_set_def reconcile_def
    by (rule ran_distinct) (rule merge_loop_distinct [OF uniq])
  ultimately show ?thesis using m by simp
qed

lemma reconcile_ab: "fst (reconcile [] [conflict_a, conflict_b]) = [(key_of conflict_a, conflict_a)]"
  by (simp add: reconcile_def merge_event_def conflict_a_def conflict_b_def key_of_def sentinel_def)

lemma reconcile_ba: "fst (reconcile [] [conflict_b, conflict_a]) = [(key_of conflict_b, conflict_b)]"
  by (simp add: reconcile_def merge_event_def conflict_a_def conflict_b_def key_of_def sentinel_def)

text \<open>
  C1 as stated fails: two incoming records with one key and different concrete values
  are merged to the first of them, whichever order they arrive in.
\<close>

theorem reconcile_not_commutative:
  "mset [conflict_b, conflict_a] = mset [conflict_a, conflict_b]
   \<and> key_of conflict_a = key_of conflict_b
   \<and> persisted_set (fst (reconcile [] [conflict_b, conflict_a]))
       \<noteq> persisted_set (fst (reconcile [] [conflict_a, conflict_b]))"
  by (simp add: reconcile_ab reconcile_ba persisted_set_def)
     (simp add: conflict_a_def conflict_b_def key_of_def)

theorem reconcile_commutative_if_agree_witness:
  "persisted_set (fst (reconcile [] [conflict_a\<lparr>date := sentinel\<rparr>, conflict_a])) =
   persisted_set (fst (reconcile [] [conflict_a, conflict_a\<lparr>date := sentinel\<rparr>]))"
  using reconcile_commutative_if_agree
    [of "[conflict_a\<lparr>date := sentinel\<rparr>, conflict_a]" "[conflict_a, conflict_a\<lparr>date := sentinel\<rparr>]" "[]"]
  by (simp add: agree_def)

section \<open>Properties of the loader\<close>

text \<open>
  C2 as stated fails: a row whose first cell is the empty string is not skipped; it is
  loaded under the key with the empty title.
\<close>

theorem load_rows_empty_title_loaded:
  "load_existing (Some [untitled_row]) =
     [((CStr '''', CStr ''https://x/a'', CStr ''X''),
       \<lparr>title = CStr '''', date = CStr ''21. April 2026'', location = CStr ''Berlin'',
          url = CStr ''https://x/a'', source = CStr ''X''\<rparr>)]
   \<and> load_existing (Some [untitled_row]) \<noteq> load_existing (Some [])"
  by (simp add: load_existing_def load_row_def untitled_row_def)

text \<open>
  C2, as amended. When loading the persisted store, every row whose first cell is absent
  (\<open>None\<close>) is skipped; a row of five cells whose first cell holds any other value, the
  empty string included, is loaded into the persisted mapping.
\<close>

theorem load_rows_skips_none_only:
  "load_rows st ((CNone # cs) # rs) = load_rows st rs
   \<and> (t \<noteq> CNone \<longrightarrow>
        load_rows st ([t, d, l, u, s] # rs) =
        load_rows (AList.update (t, u, s)
                     \<lparr>title = t, date = d, location = l, url = u, source = s\<rparr> st) rs)"
  by (simp add: load_row_def)

theorem load_rows_skips_none_only_witness:
  "CStr '''' \<noteq> CNone
   \<and> load_rows [] [[CStr '''', CStr ''d'', CStr ''l'', CStr ''u'', CStr ''s'']] =
       ([((CStr '''', CStr ''u'', CStr ''s''),
          \<lparr>title = CStr '''', date = CStr ''d'', location = CStr ''l'', url = CStr ''u'',
             source = CStr ''s''\<rparr>)], None)"
  using load_rows_skips_none_only [where st = "[]" and cs = "[]" and rs = "[]"
      and t = "CStr ''''" and d = "CStr ''d''" and l = "CStr ''l''" and u = "CStr ''u''"
      and s = "CStr ''s''"]
  by simp

section \<open>Properties of the date normalizer\<close>

subsection \<open>No exception leaves \<open>parse_date\<close> on a string\<close>

lemma take_takeWhile_all:
  assumes "n \<le> length (takeWhile p s)"
  shows "list_all p (take n s)"
proof -
  have "take n s = take n (takeWhile p s @ dropWhile p s)" by simp
  also have "\<dots> = take n (takeWhile p s)" using assms by (simp del: takeWhile_dropWhile_id)
  finally have "set (take n s) \<subseteq> set (takeWhile p s)" by (simp add: set_take_subset)
  then show ?thesis by (auto simp: list_all_iff dest: set_takeWhileD)
qed

lemma greedy_sound:
  assumes "(g, r) \<in> set (greedy p lo hi s)"
  shows "list_all p g \<and> lo \<le> length g \<and> length g \<le> hi \<and> s = g @ r"
proof -
  from assms have "(g, r) \<in> (\<lambda>n. (take n s, drop n s)) ` {lo ..< Suc (min hi (length (takeWhile p s)))}"
    by (simp only: greedy_def set_map set_rev set_upt)
  then obtain n where nin: "n \<in> {lo ..< Suc (min hi (length (takeWhile p s)))}"
    and gr: "(g, r) = (take n s, drop n s)"
    by blast
  from nin have n: "lo \<le> n" "n \<le> hi" "n \<le> length (takeWhile p s)" by auto
  from gr have g: "g = take n s" and r: "r = drop n s" by simp_all
  have "length (takeWhile p s) \<le> length s" by (rule length_takeWhile_le)
  with n have "length g = n" by (simp add: g)
  with n g r take_takeWhile_all [OF n(3)] show ?thesis by simp
qed

lemma first_match_in: "first_match ms = Some m \<Longrightarrow> m \<in> set ms"
  by (cases ms) (auto simp: first_match_def)

lemma py_int_error: "py_int s = Inl e \<Longrightarrow> e = ValueError"
  by (auto simp: py_int_def split: if_splits)

lemma py_datetime_error: "py_datetime y m d = Inl e \<Longrightarrow> e = ValueError"
  by (auto simp: py_datetime_def split: if_splits)

lemma py_int_digits: "list_all is_digit g \<Longrightarrow> 1 \<le> length g \<Longrightarrow> \<exists>n. py_int g = Inr n"
  by (cases g) (auto simp: py_int_def)

lemma numeric_rule_no_error: "\<exists>r. numeric_rule s = Inr r"
  by (auto simp: numeric_rule_def split: option.splits sum.splits
      dest: py_int_error py_datetime_error)

lemma range_matches_groups:
  assumes "(g1, g2, g3, g4) \<in> set (range_matches s)"
  shows "list_all is_digit g1 \<and> 1 \<le> length g1 \<and> list_all is_digit g4 \<and> length g4 = 4"
  using assms
  by (auto simp: range_matches_def range_days_def range_month_year_def dest!: greedy_sound)

lemma range_rule_no_error: "\<exists>r. range_rule s = Inr r"
proof (cases "first_match (range_matches s)")
  case None
  then show ?thesis by (simp add: range_rule_def)
next
  case (Some m)
  obtain g1 g2 g3 g4 where m: "m = (g1, g2, g3, g4)" by (cases m) auto
  from first_match_in [OF Some] m have "(g1, g2, g3, g4) \<in> set (range_matches s)" by simp
  from range_matches_groups [OF this]
  have d1: "list_all is_digit g1" "1 \<le> length g1" and d4: "list_all is_digit g4" "1 \<le> length g4"
    by simp_all
  from py_int_digits [OF d1] obtain day where day: "py_int g1 = Inr day" by blast
  from py_int_digits [OF d4] obtain year where year: "py_int g4 = Inr year" by blast
  show ?thesis
    using Some m day year
    by (auto simp: range_rule_def Let_def split: option.splits sum.splits
        dest: py_datetime_error)
qed

lemma gibberish_numeric: "numeric_matches ''gibberish'' = []"
  by (simp add: numeric_matches_def greedy_def is_digit_def)

lemma gibberish_range: "range_matches ''gibberish'' = []"
  by (simp add: range_matches_def range_days_def range_month_year_def greedy_def is_digit_def)

text \<open>
  C6. The date normalizer never raises on a string: for every string \<open>parse_date\<close>
  returns a value, no exception leaves it; it returns \<open>None\<close> on the sentinel, on the
  empty string, on \<open>gibberish\<close>, and whenever neither pattern matches.
\<close>

theorem parse_date_total:
  "(\<exists>r. parse_date (CStr s) = Inr r)
   \<and> parse_date (CStr ''See details'') = Inr None
   \<and> parse_date (CStr '''') = Inr None
   \<and> parse_date (CStr ''gibberish'') = Inr None
   \<and> (first_match (numeric_matches s) = None \<and> first_match (range_matches s) = None
        \<longrightarrow> parse_date (CStr s) = Inr None)"
proof -
  obtain r1 where r1: "numeric_rule s = Inr r1" using numeric_rule_no_error by blast
  obtain r2 where r2: "range_rule s = Inr r2" using range_rule_no_error by blast
  have total: "\<exists>r. parse_date (CStr s) = Inr r"
    using r1 r2 by (cases r1) (simp_all add: parse_date_def)
  have nomatch: "first_match (numeric_matches s) = None \<and> first_match (range_matches s) = None
        \<longrightarrow> parse_date (CStr s) = Inr None"
    by (simp add: parse_date_def numeric_rule_def range_rule_def)
  have gib: "parse_date (CStr ''gibberish'') = Inr None"
    by (simp add: parse_date_def numeric_rule_def range_rule_def gibberish_numeric
        gibberish_range first_match_def)
  show ?thesis using total nomatch gib by (simp add: parse_date_def)
qed

theorem parse_date_total_witness:
  "first_match (numeric_matches ''next week'') = None
   \<and> first_match (range_matches ''next week'') = None
   \<and> parse_date (CStr ''next week'') = Inr None"
  using parse_date_total [of "''next week''"]
  by (simp add: numeric_matches_def range_matches_def range_days_def range_month_year_def greedy_def is_digit_def first_match_def)

subsection \<open>The numeric rule\<close>

lemma not_digit_dot [simp]: "\<not> is_digit CHR ''.''"
  by (simp add: is_digit_def)

lemma not_space_dot [simp]: "\<not> is_space CHR ''.''"
  by (simp add: is_space_def)

lemma digit_not_space: "is_digit c \<Longrightarrow> \<not> is_space c"
  by (auto simp: is_digit_def is_space_def Let_def)

lemma short_digits_cases:
  assumes "list_all is_digit d" "1 \<le> length d" "length d \<le> 2"
  obtains a where "d = [a]" "is_digit a"
  | a b where "d = [a, b]" "is_digit a" "is_digit b"
proof (cases d)
  case Nil
  with assms show ?thesis by simp
next
  case (Cons a d')
  show ?thesis
  proof (cases d')
    case Nil
    with Cons assms that(1) show ?thesis by simp
  next
    case (Cons b d'')
    with \<open>d = a # d'\<close> assms that(2) show ?thesis by (cases d'') simp_all
  qed
qed

lemma greedy_exact:
  assumes "list_all p g"
  shows "greedy p (length g) (length g) (g @ r) = [(g, r)]"
proof -
  have "takeWhile p (g @ r) = g @ takeWhile p r"
    using assms by (simp add: list_all_iff takeWhile_append2)
  then have "min (length g) (length (takeWhile p (g @ r))) = length g" by simp
  then show ?thesis by (simp add: greedy_def)
qed

lemma greedy_digits_one:
  assumes "is_digit a" "r = [] \<or> \<not> is_digit (hd r)"
  shows "greedy is_digit (Suc 0) 2 (a # r) = [([a], r)]"
  using assms by (cases r) (auto simp: greedy_def)

lemma greedy_digits_two:
  assumes "is_digit a" "is_digit b"
  shows "greedy is_digit (Suc 0) 2 (a # b # r) = [([a, b], r), ([a], b # r)]"
proof -
  have "min 2 (length (takeWhile is_digit (a # b # r))) = 2" using assms by simp
  then have "rev [1 ..< Suc (min 2 (length (takeWhile is_digit (a # b # r))))] = [2, 1]"
    by (simp add: upt_rec)
  then show ?thesis by (simp add: greedy_def)
qed

lemma lit_simps [simp]:
  "lit c (c # r) = [r]" "x \<noteq> c \<Longrightarrow> lit c (x # r) = []" "lit c [] = []"
  by (simp_all add: lit_def)

lemma lit_digit_dot [simp]: "is_digit x \<Longrightarrow> lit CHR ''.'' (x # r) = []"
  by (auto simp: lit_def)

lemma numeric_matches_head:
  assumes d1: "list_all is_digit d1" "1 \<le> length d1" "length d1 \<le> 2"
    and d2: "list_all is_digit d2" "1 \<le> length d2" "length d2 \<le> 2"
    and y: "list_all is_digit y" "length y = 4"
  shows "first_match (numeric_matches (d1 @ CHR ''.'' # d2 @ CHR ''.'' # y @ rest)) = Some (d1, d2, y)"
proof -
  have y4: "greedy is_digit 4 4 (y @ rest) = [(y, rest)]"
    using greedy_exact [OF y(1), of rest] y(2) by simp
  from d1 d2 show ?thesis
    by (elim short_digits_cases)
       (simp_all add: numeric_matches_def greedy_digits_one greedy_digits_two y4 first_match_def)
qed


lemma opt_lit_rest: "r \<in> set (opt_lit c s) \<Longrightarrow> x \<in> set r \<Longrightarrow> x \<in> set s"
  by (auto simp: opt_lit_def lit_def split: list.splits if_splits)

lemma greedy_rest: "(g, r) \<in> set (greedy p lo hi s) \<Longrightarrow> x \<in> set r \<Longrightarrow> x \<in> set s"
  by (auto dest!: greedy_sound)

lemma opt_group_greedy_rest:
  "(g, r) \<in> set (opt_group (greedy p lo hi) s) \<Longrightarrow> x \<in> set r \<Longrightarrow> x \<in> set s"
  by (auto simp: opt_group_def dest: greedy_rest)

lemma greedy_space_plus:
  assumes "(g, r) \<in> set (greedy is_space (Suc 0) hi s)"
  shows "\<exists>c \<in> set s. is_space c"
proof -
  from greedy_sound [OF assms] have g: "list_all is_space g" "Suc 0 \<le> length g" "s = g @ r"
    by simp_all
  then obtain c g' where "g = c # g'" by (cases g) auto
  with g show ?thesis by auto
qed

lemma range_matches_needs_space:
  assumes "m \<in> set (range_matches s)"
  shows "\<exists>c \<in> set s. is_space c"
proof -
  from assms obtain g1 r1 r2 r3 r4 w1 r5 g2 r6 r7 w2 r8 g3 r9 w3 r10 where
    st: "(g1, r1) \<in> set (greedy is_digit 1 2 s)"
      "r2 \<in> set (opt_lit CHR ''.'' r1)"
      "r3 \<in> set (opt_lit CHR ''/'' r2)"
      "r4 \<in> set (opt_lit CHR ''.'' r3)"
      "(w1, r5) \<in> set (greedy is_space 0 (length r4) r4)"
      "(g2, r6) \<in> set (opt_group (greedy is_digit 1 2) r5)"
      "r7 \<in> set (opt_lit CHR ''.'' r6)"
      "(w2, r8) \<in> set (greedy is_space 0 (length r7) r7)"
      "(g3, r9) \<in> set (greedy is_word 1 (length r8) r8)"
      "(w3, r10) \<in> set (greedy is_space (Suc 0) (length r9) r9)"
    by (auto simp: range_matches_def range_days_def range_month_year_def)
  from greedy_space_plus [OF st(10)] obtain c where c: "c \<in> set r9" "is_space c" by blast
  from c(1) st(9) have "c \<in> set r8" by (blast dest: greedy_rest)
  with st(8) have "c \<in> set r7" by (blast dest: greedy_rest)
  with st(7) have "c \<in> set r6" by (blast dest: opt_lit_rest)
  with st(6) have "c \<in> set r5" by (blast dest: opt_group_greedy_rest)
  with st(5) have "c \<in> set r4" by (blast dest: greedy_rest)
  with st(4) have "c \<in> set r3" by (blast dest: opt_lit_rest)
  with st(3) have "c \<in> set r2" by (blast dest: opt_lit_rest)
  with st(2) have "c \<in> set r1" by (blast dest: opt_lit_rest)
  with st(1) have "c \<in> set s" by (blast dest: greedy_rest)
  with c show ?thesis by auto
qed


lemma range_matches_no_space:
  assumes "\<forall>c \<in> set s. \<not> is_space c"
  shows "range_matches s = []"
proof (rule ccontr)
  assume "range_matches s \<noteq> []"
  then obtain m where "m \<in> set (range_matches s)"
    by (cases "range_matches s") auto
  from range_matches_needs_space [OF this] assms show False by blast
qed

lemma py_int_InrD: "py_int s = Inr n \<Longrightarrow> list_all is_digit s \<and> 1 \<le> length s"
  by (cases s) (auto simp: py_int_def split: if_splits)

lemma digit_prefix_not_falsy:
  assumes "list_all is_digit dd" "1 \<le> length dd"
  shows "dd @ r \<noteq> [] \<and> dd @ r \<noteq> ''See details''"
proof -
  from assms obtain a dd' where dd: "dd = a # dd'" "is_digit a" by (cases dd) auto
  have "\<not> is_digit CHR ''S''" by (simp add: is_digit_def)
  with dd show ?thesis by auto
qed

lemma numeric_rule_value:
  assumes dd: "py_int dd = Inr d" "length dd \<le> 2"
    and mm: "py_int mm = Inr m" "length mm \<le> 2"
    and yyyy: "py_int yyyy = Inr y" "length yyyy = 4"
  shows "numeric_rule (dd @ CHR ''.'' # mm @ CHR ''.'' # yyyy @ rest) =
           Inr (if valid_date y m d then Some (y, m, d, 0, 0, 0, 0) else None)"
proof -
  have "first_match (numeric_matches (dd @ CHR ''.'' # mm @ CHR ''.'' # yyyy @ rest)) = Some (dd, mm, yyyy)"
    using py_int_InrD [OF dd(1)] py_int_InrD [OF mm(1)] py_int_InrD [OF yyyy(1)] dd(2) mm(2) yyyy(2)
    by (intro numeric_matches_head) simp_all
  then show ?thesis
    using dd(1) mm(1) yyyy(1) by (simp add: numeric_rule_def py_datetime_def)
qed

text \<open>
  C10. The \<open>DD.MM.YYYY\<close> rule matches by prefix only: for every string that begins with
  one or two digits, a dot, one or two digits, a dot and four digits naming a valid
  calendar date, \<open>parse_date\<close> returns that date, whatever characters follow.
\<close>

theorem parse_date_numeric_prefix:
  assumes "py_int dd = Inr d" "length dd \<le> 2"
    and "py_int mm = Inr m" "length mm \<le> 2"
    and "py_int yyyy = Inr y" "length yyyy = 4"
    and "valid_date y m d"
  shows "parse_date (CStr (dd @ ''.'' @ mm @ ''.'' @ yyyy @ rest)) = Inr (Some (y, m, d, 0, 0, 0, 0))"
proof -
  have nf: "dd @ CHR ''.'' # mm @ CHR ''.'' # yyyy @ rest \<noteq> []
      \<and> dd @ CHR ''.'' # mm @ CHR ''.'' # yyyy @ rest \<noteq> ''See details''"
    using py_int_InrD [OF assms(1)] by (intro digit_prefix_not_falsy) simp_all
  show ?thesis
    using nf numeric_rule_value [OF assms(1-6), of rest] assms(7)
    by (simp add: parse_date_def)
qed

theorem parse_date_numeric_prefix_witness:
  "parse_date (CStr ''10.03.2026 - 12.03.2026'') = Inr (Some (2026, 3, 10, 0, 0, 0, 0))"
  using parse_date_numeric_prefix [of "''10''" 10 "''03''" 3 "''2026''" 2026 "'' - 12.03.2026''"]
  by (simp add: py_int_def is_digit_def valid_date_def days_in_month_def)

text \<open>
  C5. For every string \<open>DD.MM.YYYY\<close> (one or two digits for the day and for the month,
  four for the year) \<open>parse_date\<close> returns exactly the encoded calendar date, day first,
  when that date is valid, and \<open>None\<close> when it is not.
\<close>

theorem parse_date_numeric_exact:
  assumes "py_int dd = Inr d" "length dd \<le> 2"
    and "py_int mm = Inr m" "length mm \<le> 2"
    and "py_int yyyy = Inr y" "length yyyy = 4"
  shows "parse_date (CStr (dd @ ''.'' @ mm @ ''.'' @ yyyy)) =
           Inr (if valid_date y m d then Some (y, m, d, 0, 0, 0, 0) else None)"
proof -
  let ?s = "dd @ CHR ''.'' # mm @ CHR ''.'' # yyyy"
  have nf: "?s \<noteq> [] \<and> ?s \<noteq> ''See details''"
    using py_int_InrD [OF assms(1)] by (intro digit_prefix_not_falsy) simp_all
  have nr: "numeric_rule ?s = Inr (if valid_date y m d then Some (y, m, d, 0, 0, 0, 0) else None)"
    using numeric_rule_value [OF assms, of "[]"] by simp
  have "\<forall>c \<in> set ?s. \<not> is_space c"
    using py_int_InrD [OF assms(1)] py_int_InrD [OF assms(3)] py_int_InrD [OF assms(5)]
    by (auto simp: list_all_iff dest: digit_not_space)
  then have "range_matches ?s = []"
    by (rule range_matches_no_space)
  then have rr: "range_rule ?s = Inr None"
    by (simp add: range_rule_def first_match_def)
  show ?thesis
    using nf nr rr by (simp add: parse_date_def)
qed

theorem parse_date_numeric_exact_witness:
  "parse_date (CStr ''29.02.2024'') = Inr (Some (2024, 2, 29, 0, 0, 0, 0))
   \<and> parse_date (CStr ''31.02.2026'') = Inr None"
  using parse_date_numeric_exact [of "''29''" 29 "''02''" 2 "''2024''" 2024]
    parse_date_numeric_exact [of "''31''" 31 "''02''" 2 "''2026''" 2026]
  by (simp add: py_int_def is_digit_def valid_date_def days_in_month_def is_leap_def)

subsection \<open>The day-range rule\<close>

lemma month_letter_lower:
  assumes "month_letter (lower_char c)"
  shows "is_word c \<and> \<not> is_digit c \<and> \<not> is_space c"
proof -
  define n where "n = (of_char c :: nat)"
  have lt: "n < 256" by (simp add: n_def)
  have rng: "(65 \<le> n \<and> n \<le> 90) \<or> (97 \<le> n \<and> n \<le> 122) \<or> n = 196 \<or> n = 228"
  proof (cases "(65 \<le> n \<and> n \<le> 90) \<or> (192 \<le> n \<and> n \<le> 214) \<or> (216 \<le> n \<and> n \<le> 222)")
    case True
    then have "lower_char c = char_of (n + 32)"
      unfolding lower_char_def Let_def n_def [symmetric] by (simp only: if_True)
    moreover have "(of_char (char_of (n + 32) :: char) :: nat) = n + 32"
    proof -
      from True have "n + 32 < 256" by arith
      then have "(n + 32) mod 256 = n + 32" by simp
      then show ?thesis by (simp add: of_char_of)
    qed
    ultimately have "(97 \<le> n + 32 \<and> n + 32 \<le> 122) \<or> n + 32 = 228"
      using assms by (simp add: month_letter_def)
    then show ?thesis by (elim disjE) simp_all
  next
    case False
    then have "lower_char c = c"
      unfolding lower_char_def Let_def n_def [symmetric] by (simp only: if_False)
    with assms have "(97 \<le> n \<and> n \<le> 122) \<or> n = 228"
      by (simp add: month_letter_def n_def)
    then show ?thesis by (elim disjE) simp_all
  qed
  have w: "is_word c"
    unfolding is_word_def Let_def n_def [symmetric] using rng by (elim disjE) simp_all
  have d: "\<not> is_digit c"
    unfolding is_digit_def n_def [symmetric] using rng by (elim disjE) simp_all
  have s: "\<not> is_space c"
    unfolding is_space_def Let_def n_def [symmetric] using rng by (elim disjE) simp_all
  from w d s show ?thesis by simp
qed

lemma month_map_letters:
  assumes "map_of month_map nm = Some m"
  shows "nm \<noteq> [] \<and> list_all month_letter nm"
proof -
  from assms have "(nm, m) \<in> set month_map" by (rule map_of_SomeD)
  then show ?thesis
    unfolding month_map_def by (auto simp: month_letter_def)
qed

lemma month_name_chars:
  assumes "map_of month_map (lower name) = Some m"
  shows "name \<noteq> [] \<and> list_all is_word name \<and> \<not> is_digit (hd name) \<and> \<not> is_space (hd name)"
proof -
  from month_map_letters [OF assms] have ne: "lower name \<noteq> []"
    and all: "list_all month_letter (lower name)" by simp_all
  from ne obtain c cs where name: "name = c # cs" by (cases name) (auto simp: lower_def)
  from all have "\<forall>x \<in> set name. month_letter (lower_char x)"
    by (simp add: lower_def list_all_iff)
  then have "\<forall>x \<in> set name. is_word x \<and> \<not> is_digit x \<and> \<not> is_space x"
    by (blast dest: month_letter_lower)
  with name show ?thesis by (simp add: list_all_iff)
qed

lemma space_not_word: "is_space c \<Longrightarrow> \<not> is_word c"
  by (auto simp: is_space_def is_word_def Let_def)

lemma space_not_digit: "is_space c \<Longrightarrow> \<not> is_digit c"
  by (auto simp: is_space_def is_digit_def Let_def)

lemma not_digit_slash [simp]: "\<not> is_digit CHR ''/''"
  by (simp add: is_digit_def)

lemma lit_digit_slash [simp]: "is_digit x \<Longrightarrow> lit CHR ''/'' (x # r) = []"
  by (auto simp: lit_def)

lemma takeWhile_run:
  assumes "list_all p g" "r = [] \<or> \<not> p (hd r)"
  shows "takeWhile p (g @ r) = g"
proof -
  have "takeWhile p r = []" using assms(2) by (cases r) auto
  with assms(1) show ?thesis by (simp add: list_all_iff takeWhile_append2)
qed

lemma greedy_head:
  assumes "list_all p g" "r = [] \<or> \<not> p (hd r)" "lo \<le> length g" "length g \<le> hi"
  shows "greedy p lo hi (g @ r) =
           (g, r) # map (\<lambda>n. (take n (g @ r), drop n (g @ r))) (rev [lo ..< length g])"
proof -
  have "min hi (length (takeWhile p (g @ r))) = length g"
    using takeWhile_run [OF assms(1,2)] assms(4) by simp
  moreover have "[lo ..< Suc (length g)] = [lo ..< length g] @ [length g]"
    using assms(3) by simp
  ultimately show ?thesis by (simp add: greedy_def)
qed

lemma greedy_fail:
  assumes "s = [] \<or> \<not> p (hd s)" "1 \<le> lo"
  shows "greedy p lo hi s = []"
proof -
  have "takeWhile p s = []" using assms(1) by (cases s) auto
  with assms(2) show ?thesis by (simp add: greedy_def)
qed

lemma greedy_none:
  assumes "s = [] \<or> \<not> p (hd s)"
  shows "greedy p 0 hi s = [([], s)]"
proof -
  have "takeWhile p s = []" using assms by (cases s) auto
  then show ?thesis by (simp add: greedy_def)
qed



lemma range_month_year_head:
  assumes name: "name \<noteq> []" "list_all is_word name"
    and ws: "ws \<noteq> []" "list_all is_space ws"
    and yyyy: "list_all is_digit yyyy" "length yyyy = 4"
  shows "\<exists>alts. range_month_year (name @ ws @ yyyy @ rest) = (name, yyyy, rest) # alts"
proof -
  from ws obtain w ws' where w: "ws = w # ws'" "is_space w" by (cases ws) auto
  from yyyy obtain y0 ys where y0: "yyyy = y0 # ys" "is_digit y0" by (cases yyyy) auto
  have s1: "\<And>hi. length name \<le> hi \<Longrightarrow>
      greedy is_word (Suc 0) hi (name @ ws @ yyyy @ rest) =
        (name, ws @ yyyy @ rest)
        # map (\<lambda>n. (take n (name @ ws @ yyyy @ rest), drop n (name @ ws @ yyyy @ rest)))
            (rev [Suc 0 ..< length name])"
    using name w by (intro greedy_head) (auto simp: space_not_word Suc_le_eq)
  have s2: "\<And>hi. length ws \<le> hi \<Longrightarrow>
      greedy is_space (Suc 0) hi (ws @ yyyy @ rest) =
        (ws, yyyy @ rest)
        # map (\<lambda>n. (take n (ws @ yyyy @ rest), drop n (ws @ yyyy @ rest)))
            (rev [Suc 0 ..< length ws])"
    using ws y0 by (intro greedy_head) (auto simp: digit_not_space Suc_le_eq)
  have s3: "greedy is_digit 4 4 (yyyy @ rest) = [(yyyy, rest)]"
    using greedy_exact [OF yyyy(1), of rest] yyyy(2) by simp
  show ?thesis
    by (simp add: range_month_year_def s1 s2 s3)
qed

lemma range_days_head:
  assumes d1: "list_all is_digit d1" "1 \<le> length d1" "length d1 \<le> 2"
    and d2: "list_all is_digit d2" "1 \<le> length d2" "length d2 \<le> 2"
    and sep: "sep = ''.'' \<or> sep = ''/'' \<or> sep = ''./''"
    and ws: "list_all is_space ws"
    and x: "x = [] \<or> \<not> is_space (hd x)"
  shows "\<exists>alts. range_days (d1 @ sep @ d2 @ CHR ''.'' # ws @ x) = (d1, Some d2, x) # alts"
proof -
  have s: "\<And>hi. length ws \<le> hi \<Longrightarrow>
      greedy is_space 0 hi (ws @ x) =
        (ws, x) # map (\<lambda>n. (take n (ws @ x), drop n (ws @ x))) (rev [0 ..< length ws])"
    using ws x by (intro greedy_head) auto
  have n: "\<And>c r hi. is_digit c \<Longrightarrow> greedy is_space 0 hi (c # r) = [([], c # r)]"
    by (rule greedy_none) (simp add: digit_not_space)
  from d1 d2 sep show ?thesis
    by (elim short_digits_cases disjE)
       (simp_all add: range_days_def greedy_digits_one greedy_digits_two opt_lit_def
          opt_group_def s n)
qed

lemma numeric_matches_range_fails:
  assumes d1: "list_all is_digit d1" "1 \<le> length d1" "length d1 \<le> 2"
    and d2: "list_all is_digit d2" "1 \<le> length d2" "length d2 \<le> 2"
    and sep: "sep = ''.'' \<or> sep = ''/'' \<or> sep = ''./''"
    and x: "x = [] \<or> \<not> is_digit (hd x)"
  shows "numeric_matches (d1 @ sep @ d2 @ CHR ''.'' # x) = []"
proof -
  have f4: "greedy is_digit 4 4 x = []"
    using x by (intro greedy_fail) simp_all
  have f1: "\<And>r. greedy is_digit (Suc 0) 2 (CHR ''/'' # r) = []"
    by (rule greedy_fail) simp_all
  from d1 d2 sep show ?thesis
    by (elim short_digits_cases disjE)
       (simp_all add: numeric_matches_def greedy_digits_one greedy_digits_two f4 f1)
qed


lemma range_matches_head:
  assumes "range_days s = (g1, g2, r8) # alts" "range_month_year r8 = (g3, g4, r11) # alts'"
  shows "first_match (range_matches s) = Some (g1, g2, g3, g4)"
  using assms by (simp add: range_matches_def first_match_def)

text \<open>
  C8. For every day-range string: a first day of one or two digits, one of the separators
  \<open>.\<close>, \<open>/\<close> or \<open>./\<close>, a second day of one or two digits, a dot, optional whitespace, a
  month name that \<open>month_map\<close> knows in any case, whitespace and a year of four digits,
  followed by anything; \<open>parse_date\<close> returns the date built from the first day, that
  month and that year whenever these name a day of the calendar (and \<open>None\<close> when they
  do not).
\<close>

theorem parse_date_day_range:
  assumes dd1: "py_int dd1 = Inr d" "length dd1 \<le> 2"
    and dd2: "list_all is_digit dd2" "1 \<le> length dd2" "length dd2 \<le> 2"
    and sep: "sep = ''.'' \<or> sep = ''/'' \<or> sep = ''./''"
    and ws1: "list_all is_space ws1"
    and name: "map_of month_map (lower name) = Some m"
    and ws2: "list_all is_space ws2" "1 \<le> length ws2"
    and yyyy: "py_int yyyy = Inr y" "length yyyy = 4"
  shows "parse_date (CStr (dd1 @ sep @ dd2 @ ''.'' @ ws1 @ name @ ws2 @ yyyy @ rest)) =
           Inr (if valid_date y m d then Some (y, m, d, 0, 0, 0, 0) else None)"
proof -
  let ?x = "name @ ws2 @ yyyy @ rest"
  let ?s = "dd1 @ sep @ dd2 @ CHR ''.'' # ws1 @ ?x"
  note d1 = py_int_InrD [OF dd1(1)]
  note y4 = py_int_InrD [OF yyyy(1)]
  note nm = month_name_chars [OF name]
  from nm obtain c cs where c: "name = c # cs" by (cases name) auto
  have nf: "?s \<noteq> [] \<and> ?s \<noteq> ''See details''"
    using d1 by (intro digit_prefix_not_falsy) simp_all
  have hdx: "\<not> is_space (hd ?x)" "\<not> is_digit (hd ?x)"
    using nm c by simp_all
  have hdw: "ws1 @ ?x = [] \<or> \<not> is_digit (hd (ws1 @ ?x))"
    using hdx ws1 c by (cases ws1) (auto simp: space_not_digit)
  have "numeric_matches ?s = []"
    using d1 dd1(2) dd2 sep hdw
    by (intro numeric_matches_range_fails) simp_all
  then have nr: "numeric_rule ?s = Inr None"
    by (simp add: numeric_rule_def first_match_def)
  obtain alts where days: "range_days ?s = (dd1, Some dd2, ?x) # alts"
    using range_days_head [of dd1 dd2 sep ws1 ?x] d1 dd1(2) dd2 sep ws1 hdx(1) by auto
  obtain alts' where my: "range_month_year ?x = (name, yyyy, rest) # alts'"
    using range_month_year_head [of name ws2 yyyy rest] nm ws2 y4 yyyy(2) by (cases ws2) auto
  have "first_match (range_matches ?s) = Some (dd1, Some dd2, name, yyyy)"
    using days my by (rule range_matches_head)
  then have rr: "range_rule ?s = Inr (if valid_date y m d then Some (y, m, d, 0, 0, 0, 0) else None)"
    using dd1(1) yyyy(1) name by (simp add: range_rule_def py_datetime_def)
  show ?thesis
    using nf nr rr by (simp add: parse_date_def)
qed

lemma lower_Maerz:
  "map_of month_map (lower [CHR ''M'', CHR 0xE4, CHR ''r'', CHR ''z'']) = Some 3"
  by code_simp

theorem parse_date_day_range_witness:
  "parse_date (CStr (''11./12. M'' @ [CHR 0xE4] @ ''rz 2026'')) = Inr (Some (2026, 3, 11, 0, 0, 0, 0))"
  using parse_date_day_range [of "''11''" 11 "''12''" "''./''" "'' ''"
      "[CHR ''M'', CHR 0xE4, CHR ''r'', CHR ''z'']" 3 "'' ''" "''2026''" 2026 "[]"]
  by (simp add: py_int_def is_digit_def is_space_def lower_Maerz
      valid_date_def days_in_month_def)

section \<open>Properties of the ordering\<close>

lemma keys_of_total:
  assumes "\<forall>ev \<in> set evs. \<exists>k. sort_key_event ev = Inr k"
  shows "keys_of evs = Inr (map key_total evs)"
  using assms by (induction evs) (auto simp: key_total_def)

lemma insort_key_zip:
  assumes "\<forall>(k, v) \<in> set zs. k = f v"
  shows "map snd (insort_key fst (f x, x) zs) = insort_key f x (map snd zs)"
  using assms by (induction zs) auto

lemma sort_key_zip: "map snd (sort_key fst (zip (map f xs) xs)) = sort_key f xs"
proof (induction xs)
  case Nil
  then show ?case by simp
next
  case (Cons x xs)
  have "\<forall>(k, v) \<in> set (sort_key fst (zip (map f xs) xs)). k = f v"
    by (auto simp: set_zip)
  from insort_key_zip [OF this, of x] Cons.IH show ?case by simp
qed

lemma sorted_events_total:
  assumes "\<forall>ev \<in> set evs. \<exists>k. sort_key_event ev = Inr k"
  shows "sorted_events evs = Inr (sort_key key_total evs)"
  by (simp add: sorted_events_def keys_of_total [OF assms] sort_key_zip)

lemma parse_date_str_no_error: "\<exists>r. parse_date (CStr s) = Inr r"
proof -
  obtain r1 where r1: "numeric_rule s = Inr r1" using numeric_rule_no_error by blast
  obtain r2 where r2: "range_rule s = Inr r2" using range_rule_no_error by blast
  show ?thesis using r1 r2 by (cases r1) (simp_all add: parse_date_def)
qed

lemma sort_key_event_str:
  assumes "date ev = CStr s"
  shows "\<exists>k. sort_key_event ev = Inr k"
proof -
  obtain r where "parse_date (CStr s) = Inr r"
    using parse_date_str_no_error by blast
  with assms show ?thesis by (cases r) (simp_all add: sort_key_event_def del: split_paired_Ex)
qed

lemma key_total_Some:
  "parse_date (date ev) = Inr (Some d) \<Longrightarrow> key_total ev = (0, d)"
  by (simp add: key_total_def sort_key_event_def)

lemma key_total_cases:
  "key_total ev = (1, datetime_max) \<or> (\<exists>d. parse_date (date ev) = Inr (Some d) \<and> key_total ev = (0, d))"
  by (auto simp: key_total_def sort_key_event_def split: sum.splits option.splits)


lemma sort_key_precedes:
  assumes "i < j" "j < length evs" "parse_date (date (sort_key key_total evs ! j)) = Inr (Some dj)"
  shows "\<exists>di. parse_date (date (sort_key key_total evs ! i)) = Inr (Some di) \<and> di \<le> dj"
proof -
  let ?out = "sort_key key_total evs"
  have "sorted (map key_total ?out)" by (rule sorted_sort_key)
  moreover have "i \<le> j" "j < length (map key_total ?out)" using assms by simp_all
  ultimately have "map key_total ?out ! i \<le> map key_total ?out ! j"
    by (rule sorted_nth_mono)
  then have le: "key_total (?out ! i) \<le> key_total (?out ! j)"
    using assms by simp
  have kj: "key_total (?out ! j) = (0, dj)"
    using assms(3) by (rule key_total_Some)
  from key_total_cases [of "?out ! i"] show ?thesis
  proof
    assume "key_total (?out ! i) = (1, datetime_max)"
    with le kj show ?thesis by (simp add: less_eq_prod_def)
  next
    assume "\<exists>d. parse_date (date (?out ! i)) = Inr (Some d) \<and> key_total (?out ! i) = (0, d)"
    then obtain di where di: "parse_date (date (?out ! i)) = Inr (Some di)"
      "key_total (?out ! i) = (0, di)" by blast
    with le kj have "di \<le> dj" by (simp add: less_eq_prod_def)
    with di show ?thesis by blast
  qed
qed

lemma unknown_iff_key:
  assumes "\<exists>k. sort_key_event ev = Inr k"
  shows "parse_date (date ev) = Inr None \<longleftrightarrow> key_total ev = (1, datetime_max)"
  using assms
  by (auto simp: key_total_def sort_key_event_def split: sum.splits option.splits)

lemma sort_key_event_iff_key:
  assumes "\<exists>k. sort_key_event ev = Inr k"
  shows "sort_key_event ev = Inr k \<longleftrightarrow> key_total ev = k"
  using assms by (auto simp: key_total_def)

text \<open>
  C7. For records whose dates are strings, the ordering returns a permutation of its
  input in which every record with a concrete date precedes every record with an
  unknown date and the concrete dates ascend: whenever a record of the output has a
  concrete date, every record before it has a concrete date that is not later.  The
  sort is stable: records with equal keys, and in particular the records with an unknown
  date, keep the relative order of the input.
\<close>

theorem sorted_events_ordered:
  assumes "\<forall>ev \<in> set evs. \<exists>s. date ev = CStr s"
  shows "\<exists>out. sorted_events evs = Inr out
     \<and> mset out = mset evs
     \<and> (\<forall>i j dj. i < j \<and> j < length out \<and> parse_date (date (out ! j)) = Inr (Some dj)
           \<longrightarrow> (\<exists>di. parse_date (date (out ! i)) = Inr (Some di) \<and> di \<le> dj))
     \<and> (\<forall>k. filter (\<lambda>ev. sort_key_event ev = Inr k) out
             = filter (\<lambda>ev. sort_key_event ev = Inr k) evs)
     \<and> filter (\<lambda>ev. parse_date (date ev) = Inr None) out
         = filter (\<lambda>ev. parse_date (date ev) = Inr None) evs"
proof -
  let ?out = "sort_key key_total evs"
  have ok: "\<forall>ev \<in> set evs. \<exists>k. sort_key_event ev = Inr k"
    using assms by (blast dest: sort_key_event_str)
  have run: "sorted_events evs = Inr ?out"
    using ok by (rule sorted_events_total)
  have perm: "mset ?out = mset evs" by simp
  have asc: "\<forall>i j dj. i < j \<and> j < length ?out \<and> parse_date (date (?out ! j)) = Inr (Some dj)
           \<longrightarrow> (\<exists>di. parse_date (date (?out ! i)) = Inr (Some di) \<and> di \<le> dj)"
  proof (intro allI impI)
    fix i j dj
    assume h: "i < j \<and> j < length ?out \<and> parse_date (date (?out ! j)) = Inr (Some dj)"
    then have "i < j" "j < length evs" "parse_date (date (?out ! j)) = Inr (Some dj)"
      by simp_all
    then show "\<exists>di. parse_date (date (?out ! i)) = Inr (Some di) \<and> di \<le> dj"
      by (rule sort_key_precedes)
  qed
  have keq: "(sort_key_event ev = Inr k) = (key_total ev = k)" if "ev \<in> set evs" for ev k
    using that ok sort_key_event_iff_key by blast
  have ueq: "(parse_date (date ev) = Inr None) = (key_total ev = (1, datetime_max))"
    if "ev \<in> set evs" for ev
    using that ok unknown_iff_key by blast
  have stable: "filter (\<lambda>ev. sort_key_event ev = Inr k) ?out
             = filter (\<lambda>ev. sort_key_event ev = Inr k) evs" for k
  proof -
    have "filter (\<lambda>ev. sort_key_event ev = Inr k) ?out = filter (\<lambda>ev. key_total ev = k) ?out"
      by (rule filter_cong [OF refl]) (simp add: keq)
    also have "\<dots> = filter (\<lambda>ev. key_total ev = k) evs" by (rule sort_key_stable)
    also have "\<dots> = filter (\<lambda>ev. sort_key_event ev = Inr k) evs"
      by (rule filter_cong [OF refl]) (simp add: keq)
    finally show ?thesis .
  qed
  have unk: "filter (\<lambda>ev. parse_date (date ev) = Inr None) ?out
         = filter (\<lambda>ev. parse_date (date ev) = Inr None) evs"
  proof -
    have "filter (\<lambda>ev. parse_date (date ev) = Inr None) ?out
        = filter (\<lambda>ev. key_total ev = (1, datetime_max)) ?out"
      by (rule filter_cong [OF refl]) (simp add: ueq)
    also have "\<dots> = filter (\<lambda>ev. key_total ev = (1, datetime_max)) evs" by (rule sort_key_stable)
    also have "\<dots> = filter (\<lambda>ev. parse_date (date ev) = Inr None) evs"
      by (rule filter_cong [OF refl]) (simp add: ueq)
    finally show ?thesis .
  qed
  show ?thesis
  proof (intro exI conjI)
    show "sorted_events evs = Inr ?out" by (rule run)
    show "mset ?out = mset evs" by (rule perm)
    show "\<forall>i j dj. i < j \<and> j < length ?out \<and> parse_date (date (?out ! j)) = Inr (Some dj)
           \<longrightarrow> (\<exists>di. parse_date (date (?out ! i)) = Inr (Some di) \<and> di \<le> dj)"
      by (rule asc)
    show "\<forall>k. filter (\<lambda>ev. sort_key_event ev = Inr k) ?out
             = filter (\<lambda>ev. sort_key_event ev = Inr k) evs"
      by (intro allI) (rule stable)
    show "filter (\<lambda>ev. parse_date (date ev) = Inr None) ?out
         = filter (\<lambda>ev. parse_date (date ev) = Inr None) evs"
      by (rule unk)
  qed
qed


lemma ordering_example_sorted:
  "sorted_events ordering_example =
     Inr [dated ''c'' ''01.01.2026'', dated ''a'' ''10.03.2026'',
          dated ''b'' ''See details'', dated ''d'' ''See details'']"
  by code_simp

theorem sorted_events_ordered_witness:
  "\<exists>out. sorted_events ordering_example = Inr out
         \<and> out = [dated ''c'' ''01.01.2026'', dated ''a'' ''10.03.2026'',
                   dated ''b'' ''See details'', dated ''d'' ''See details'']
         \<and> mset out = mset ordering_example
         \<and> filter (\<lambda>ev. parse_date (date ev) = Inr None) out
             = filter (\<lambda>ev. parse_date (date ev) = Inr None) ordering_example"
proof -
  have h: "\<forall>ev \<in> set ordering_example. \<exists>s. date ev = CStr s"
    by (simp add: ordering_example_def dated_def)
  from sorted_events_ordered [OF h] obtain out where
    out: "sorted_events ordering_example = Inr out" "mset out = mset ordering_example"
      "filter (\<lambda>ev. parse_date (date ev) = Inr None) out
         = filter (\<lambda>ev. parse_date (date ev) = Inr None) ordering_example"
    by (elim exE conjE)
  from out(1) have "out = [dated ''c'' ''01.01.2026'', dated ''a'' ''10.03.2026'',
                   dated ''b'' ''See details'', dated ''d'' ''See details'']"
    by (simp add: ordering_example_sorted)
  with out show ?thesis by (intro conjI exI [of _ out])
qed

end
